theory Spec2Isabelle
  imports Main "HOL-Library.Sublist"
begin

section \<open>Python strings\<close>

text \<open>
  A Python \<^verbatim>\<open>str\<close> is a sequence of Unicode code points, and \<^verbatim>\<open>len\<close> counts code points.
  The rules of \<^verbatim>\<open>scripts/markdown/rules.py\<close> mention characters beyond one byte (the
  full-width comma U+FF0C and four emoji), so a string is modelled as a list of code points.
  \<open>ustr\<close> embeds an ASCII literal.
\<close>

type_synonym str = "nat list"

definition ustr :: "string \<Rightarrow> str" where
  "ustr cs = map of_char cs"

text \<open>The characters the rules name.\<close>

abbreviation NL :: nat where "NL \<equiv> 10"
abbreviation COLON :: nat where "COLON \<equiv> 58"
abbreviation PIPE :: nat where "PIPE \<equiv> 124"
abbreviation BACKTICK :: nat where "BACKTICK \<equiv> 96"
abbreviation DQUOTE :: nat where "DQUOTE \<equiv> 34"
abbreviation WIDE_COMMA :: nat where "WIDE_COMMA \<equiv> 65292"
abbreviation CHECK_MARK :: nat where "CHECK_MARK \<equiv> 9989"
abbreviation WRENCH :: nat where "WRENCH \<equiv> 128295"
abbreviation ROCKET :: nat where "ROCKET \<equiv> 128640"
abbreviation BAR_CHART :: nat where "BAR_CHART \<equiv> 128202"

text \<open>
  The exceptions a rule body could raise: a missing dictionary key, a list index out of
  range, and \<^verbatim>\<open>re.error\<close> for a replacement template that names a group the pattern
  does not have.
\<close>

datatype py_error = KeyError | IndexError | ReError

definition and_then :: "py_error + 'a \<Rightarrow> ('a \<Rightarrow> py_error + 'b) \<Rightarrow> py_error + 'b" where
  "and_then r f = (case r of Inl e \<Rightarrow> Inl e | Inr v \<Rightarrow> f v)"

text \<open>\<^verbatim>\<open>xs[i]\<close> for a non-negative index, and \<^verbatim>\<open>d[k]\<close>.\<close>

definition getitem :: "'a list \<Rightarrow> nat \<Rightarrow> py_error + 'a" where
  "getitem xs i = (if i < length xs then Inr (xs ! i) else Inl IndexError)"

definition dict_get :: "('k \<rightharpoonup> 'v) \<Rightarrow> 'k \<Rightarrow> py_error + 'v" where
  "dict_get d k = (case d k of None \<Rightarrow> Inl KeyError | Some v \<Rightarrow> Inr v)"

text \<open>
  \<^verbatim>\<open>s.split(sep)\<close> for a non-empty separator: the pieces between the non-overlapping
  occurrences of \<open>sep\<close>, found left to right. \<open>cur\<close> is the piece being read.
  (Every separator in the rules is a non-empty literal; Python raises on an empty one, and
  here an empty separator is never found.)
\<close>

fun split_from :: "str \<Rightarrow> str \<Rightarrow> str \<Rightarrow> str list" where
  "split_from sep cur [] = [cur]"
| "split_from sep cur (c # cs) =
     (if sep \<noteq> [] \<and> prefix sep (c # cs)
      then cur # split_from sep [] (drop (length sep - 1) cs)
      else split_from sep (cur @ [c]) cs)"

definition split :: "str \<Rightarrow> str \<Rightarrow> str list" where
  "split s sep = split_from sep [] s"

text \<open>\<^verbatim>\<open>sep.join(parts)\<close>.\<close>

fun join :: "str \<Rightarrow> str list \<Rightarrow> str" where
  "join sep [] = []"
| "join sep [p] = p"
| "join sep (p # q # ps) = p @ sep @ join sep (q # ps)"

text \<open>
  \<^verbatim>\<open>s.replace(old, new)\<close> for a non-empty \<open>old\<close>: every non-overlapping occurrence,
  left to right.
\<close>

fun replace :: "str \<Rightarrow> str \<Rightarrow> str \<Rightarrow> str" where
  "replace [] old new = []"
| "replace (c # cs) old new =
     (if old \<noteq> [] \<and> prefix old (c # cs)
      then new @ replace (drop (length old - 1) cs) old new
      else c # replace cs old new)"

text \<open>
  \<^verbatim>\<open>str.isspace\<close> for one character (the code points of Python 3's whitespace table), and
  \<^verbatim>\<open>s.strip()\<close>, which removes whitespace at both ends.
\<close>

definition isspace :: "nat \<Rightarrow> bool" where
  "isspace c = ((9 \<le> c \<and> c \<le> 13) \<or> (28 \<le> c \<and> c \<le> 32) \<or> c = 133 \<or> c = 160
     \<or> c = 5760 \<or> (8192 \<le> c \<and> c \<le> 8202) \<or> c = 8232 \<or> c = 8233 \<or> c = 8239
     \<or> c = 8287 \<or> c = 12288)"

definition strip :: "str \<Rightarrow> str" where
  "strip s = rev (dropWhile isspace (rev (dropWhile isspace s)))"

text \<open>The decimal digits of a positive counter, as an f-string prints it.\<close>

fun digits :: "nat \<Rightarrow> str" where
  "digits n = (if n < 10 then [48 + n] else digits (n div 10) @ [48 + n mod 10])"

text \<open>\<^verbatim>\<open>sub in s\<close> for strings.\<close>

fun contains :: "str \<Rightarrow> str \<Rightarrow> bool" where
  "contains sub [] = (sub = [])"
| "contains sub (c # cs) = (prefix sub (c # cs) \<or> contains sub cs)"

section \<open>Regular expressions: the part of Python's \<^verbatim>\<open>re\<close> the rules use\<close>

text \<open>
  The patterns of the rules are built from literals, character classes, sequence,
  alternation, greedy repetition with a lower bound (\<^verbatim>\<open>*\<close>, \<^verbatim>\<open>+\<close>, \<^verbatim>\<open>{3,}\<close>), capturing
  groups, the anchors \<^verbatim>\<open>^\<close> and \<^verbatim>\<open>$\<close> and a negative lookahead.
\<close>

datatype regex =
    Lit str
  | Cls "nat \<Rightarrow> bool"
  | Seq regex regex
  | Alt regex regex
  | Rep nat regex
  | Grp nat regex
  | Caret
  | Dollar
  | NotAhead regex

text \<open>
  A position of the matcher: the character before it (\<open>None\<close> at the start of the
  subject), the rest of the subject, and the groups captured so far (latest first).
  \<open>rmatch\<close> lists the positions at which a pattern can end, in the order in which a
  backtracking matcher tries them: the first is the match Python reports. \<open>ml\<close> is
  the flag \<^verbatim>\<open>re.MULTILINE\<close>.
\<close>

type_synonym mpos = "nat option \<times> str \<times> (nat \<times> str) list"

text \<open>
  Greedy repetition, at least \<open>n\<close> times: one more round first, then (when the lower
  bound is met) stopping here. A round that consumes nothing is not repeated, so the
  length of the subject bounds the number of rounds.
\<close>

fun rep_from :: "(mpos \<Rightarrow> mpos list) \<Rightarrow> nat \<Rightarrow> nat \<Rightarrow> mpos \<Rightarrow> mpos list" where
  "rep_from step 0 n st = (if n = 0 then [st] else [])"
| "rep_from step (Suc fuel) n st =
     concat (map (rep_from step fuel (n - 1))
       (filter (\<lambda>st'. length (fst (snd st')) < length (fst (snd st))) (step st)))
     @ (if n = 0 then [st] else [])"

primrec rmatch :: "bool \<Rightarrow> regex \<Rightarrow> mpos \<Rightarrow> mpos list" where
  "rmatch ml (Lit l) = (\<lambda>(prev, s, g).
     if prefix l s then [(if l = [] then prev else Some (last l), drop (length l) s, g)]
     else [])"
| "rmatch ml (Cls P) = (\<lambda>(prev, s, g).
     case s of [] \<Rightarrow> [] | c # cs \<Rightarrow> if P c then [(Some c, cs, g)] else [])"
| "rmatch ml (Seq a b) = (\<lambda>st. concat (map (rmatch ml b) (rmatch ml a st)))"
| "rmatch ml (Alt a b) = (\<lambda>st. rmatch ml a st @ rmatch ml b st)"
| "rmatch ml (Rep n r) = (\<lambda>st. rep_from (rmatch ml r) (length (fst (snd st))) n st)"
| "rmatch ml (Grp k r) = (\<lambda>(prev, s, g).
     map (\<lambda>(prev', s', g'). (prev', s', (k, take (length s - length s') s) # g'))
       (rmatch ml r (prev, s, g)))"
| "rmatch ml Caret = (\<lambda>(prev, s, g).
     if prev = None \<or> (ml \<and> prev = Some NL) then [(prev, s, g)] else [])"
| "rmatch ml Dollar = (\<lambda>(prev, s, g).
     if s = [] \<or> (if ml then take 1 s = [NL] else s = [NL]) then [(prev, s, g)] else [])"
| "rmatch ml (NotAhead r) = (\<lambda>st. if rmatch ml r st = [] then [st] else [])"

text \<open>
  A replacement template is literal text and group references (\<^verbatim>\<open>\1\<close>). A group that
  took no part in the match expands to the empty string.
\<close>

datatype tpart = T str | G nat

fun expand :: "tpart list \<Rightarrow> (nat \<times> str) list \<Rightarrow> str" where
  "expand [] g = []"
| "expand (T s # ps) g = s @ expand ps g"
| "expand (G k # ps) g = (case map_of g k of None \<Rightarrow> [] | Some s \<Rightarrow> s) @ expand ps g"

primrec groups_of :: "regex \<Rightarrow> nat list" where
  "groups_of (Lit l) = []"
| "groups_of (Cls P) = []"
| "groups_of (Seq a b) = groups_of a @ groups_of b"
| "groups_of (Alt a b) = groups_of a @ groups_of b"
| "groups_of (Rep n r) = groups_of r"
| "groups_of (Grp k r) = k # groups_of r"
| "groups_of Caret = []"
| "groups_of Dollar = []"
| "groups_of (NotAhead r) = groups_of r"

fun template_ok :: "regex \<Rightarrow> tpart list \<Rightarrow> bool" where
  "template_ok r [] = True"
| "template_ok r (T s # ps) = template_ok r ps"
| "template_ok r (G k # ps) = (k \<in> set (groups_of r) \<and> template_ok r ps)"

text \<open>
  The scan of \<^verbatim>\<open>re.sub\<close>: at each position, left to right, the first match (if any) is
  replaced by the expanded template and the scan goes on after it; otherwise one character
  is copied. After a match that consumed nothing the next character is copied, as Python
  does. (No pattern of the rules matches the empty string.)
\<close>

function re_scan :: "bool \<Rightarrow> regex \<Rightarrow> tpart list \<Rightarrow> nat option \<Rightarrow> str \<Rightarrow> str" where
  "re_scan ml r t prev s =
     (case rmatch ml r (prev, s, []) of
        [] \<Rightarrow> (case s of [] \<Rightarrow> [] | c # cs \<Rightarrow> c # re_scan ml r t (Some c) cs)
      | m # _ \<Rightarrow>
          if length (fst (snd m)) < length s
          then expand t (snd (snd m)) @ re_scan ml r t (fst m) (fst (snd m))
          else expand t (snd (snd m)) @
            (case s of [] \<Rightarrow> [] | c # cs \<Rightarrow> c # re_scan ml r t (Some c) cs))"
  by pat_completeness auto
termination
  by (relation "measure (\<lambda>(ml, r, t, prev, s). length s)") auto

text \<open>
  \<^verbatim>\<open>re.sub(pattern, repl, string)\<close>. The template is compiled before the scan, so a
  reference to a missing group raises whether or not the pattern matches.
\<close>

definition re_sub :: "bool \<Rightarrow> regex \<Rightarrow> tpart list \<Rightarrow> str \<Rightarrow> py_error + str" where
  "re_sub ml r t s = (if template_ok r t then Inr (re_scan ml r t None s) else Inl ReError)"

section \<open>The rules of \<^verbatim>\<open>MarkdownFixer\<close>\<close>

text \<open>
  Every rule is a function from content to content; a Python exception is the result
  \<open>Inl\<close>. The patterns are those of \<^verbatim>\<open>scripts/markdown/rules.py\<close>, each written beside
  the definition that embeds it.
\<close>

type_synonym rule = "str \<Rightarrow> py_error + str"

abbreviation Chr :: "nat \<Rightarrow> regex" where
  "Chr c \<equiv> Cls (\<lambda>x. x = c)"

abbreviation NotChr :: "nat \<Rightarrow> regex" where
  "NotChr c \<equiv> Cls (\<lambda>x. x \<noteq> c)"

subsection \<open>MD001\<close>

text \<open>
  The loop records a heading level that nothing reads, and appends every line in both
  branches.
\<close>

fun md001_loop :: "nat \<Rightarrow> str list \<Rightarrow> str list \<Rightarrow> str list" where
  "md001_loop heading_level result [] = result"
| "md001_loop heading_level result (line # lines) =
     (if prefix (ustr ''##'') line
      then md001_loop (if prefix (ustr ''###'') line then 3 else 2) (result @ [line]) lines
      else md001_loop heading_level (result @ [line]) lines)"

definition fix_md001_heading_increment :: rule where
  "fix_md001_heading_increment content =
     Inr (join [NL] (md001_loop 0 [] (split content [NL])))"

subsection \<open>MD024: duplicate headings\<close>

text \<open>
  \<^verbatim>\<open>base = line.replace('### ', '').replace(':', '').strip()\<close>: the key under which a
  level-3 heading is counted.
\<close>

definition heading_base :: "str \<Rightarrow> str" where
  "heading_base line = strip (replace (replace line (ustr ''### '') []) [COLON] [])"

text \<open>
  The loop over the lines, with its two variables: the dictionary \<open>heading_counts\<close>
  and the list \<open>new_lines\<close>. On a key already present the counter is read, incremented
  and stored, then read again for the new heading line.
\<close>

fun md024_loop :: "(str \<rightharpoonup> nat) \<Rightarrow> str list \<Rightarrow> str list \<Rightarrow> py_error + str list" where
  "md024_loop heading_counts new_lines [] = Inr new_lines"
| "md024_loop heading_counts new_lines (line # lines) =
     (if prefix (ustr ''### '') line then
        (let base = heading_base line in
         if base \<in> dom heading_counts then
           and_then (dict_get heading_counts base) (\<lambda>n.
             let heading_counts' = heading_counts(base \<mapsto> n + 1) in
             and_then (dict_get heading_counts' base) (\<lambda>k.
               md024_loop heading_counts'
                 (new_lines @ [ustr ''### '' @ base @ ustr '' ('' @ digits k @ ustr '')''])
                 lines))
         else md024_loop (heading_counts(base \<mapsto> 1)) (new_lines @ [line]) lines)
      else md024_loop heading_counts (new_lines @ [line]) lines)"

definition fix_md024_duplicate_headings :: rule where
  "fix_md024_duplicate_headings content =
     and_then (md024_loop Map.empty [] (split content [NL]))
       (\<lambda>new_lines. Inr (join [NL] new_lines))"

subsection \<open>MD026: trailing punctuation\<close>

text \<open>
  \<^verbatim>\<open>^(### [^:\n]+):$\<close> and \<^verbatim>\<open>^(## [^:\n]+):$\<close>, both with \<^verbatim>\<open>re.MULTILINE\<close> and the
  replacement \<^verbatim>\<open>\1\<close>, applied one after the other.
\<close>

definition md026_pattern :: "str \<Rightarrow> regex" where
  "md026_pattern marker =
     Seq Caret (Seq (Grp 1 (Seq (Lit marker) (Rep 1 (Cls (\<lambda>c. c \<noteq> COLON \<and> c \<noteq> NL)))))
       (Seq (Lit [COLON]) Dollar))"

definition fix_md026_trailing_punctuation :: rule where
  "fix_md026_trailing_punctuation content =
     and_then (re_sub True (md026_pattern (ustr ''### '')) [G 1] content) (\<lambda>content.
       re_sub True (md026_pattern (ustr ''## '')) [G 1] content)"

subsection \<open>MD027, MD028, MD033: rules that return the content\<close>

definition fix_md027_asterisk_blocks :: rule where
  "fix_md027_asterisk_blocks content = Inr content"

definition fix_md028_blank_line_after_blockquotes :: rule where
  "fix_md028_blank_line_after_blockquotes content = Inr content"

definition fix_md033_no_inline_html :: rule where
  "fix_md033_no_inline_html content = Inr content"

subsection \<open>MD030: list markers\<close>

text \<open>\<^verbatim>\<open>^  - \<close> to \<^verbatim>\<open>- \<close>, then \<^verbatim>\<open>^  \* \<close> to \<^verbatim>\<open>* \<close>, with \<^verbatim>\<open>re.MULTILINE\<close>.\<close>

abbreviation md030_dash :: regex where
  "md030_dash \<equiv> Seq Caret (Lit (ustr ''  - ''))"

abbreviation md030_star :: regex where
  "md030_star \<equiv> Seq Caret (Lit (ustr ''  * ''))"

definition fix_md030_list_markers :: rule where
  "fix_md030_list_markers content =
     and_then (re_sub True md030_dash [T (ustr ''- '')] content) (\<lambda>content.
       re_sub True md030_star [T (ustr ''* '')] content)"

subsection \<open>MD031: blank lines around fenced code blocks\<close>

text \<open>
  \<^verbatim>\<open>([^\n])\n(```[a-z]*\n)\<close> to \<^verbatim>\<open>\1\n\n\2\<close>, then \<^verbatim>\<open>\n(```)\n\<close> to \<^verbatim>\<open>\n\1\n\n\<close>.
\<close>

definition md031_before :: regex where
  "md031_before =
     Seq (Grp 1 (NotChr NL))
       (Seq (Lit [NL])
         (Grp 2 (Seq (Lit (ustr ''```''))
           (Seq (Rep 0 (Cls (\<lambda>c. 97 \<le> c \<and> c \<le> 122))) (Lit [NL])))))"

definition md031_after :: regex where
  "md031_after = Seq (Lit [NL]) (Seq (Grp 1 (Lit (ustr ''```''))) (Lit [NL]))"

definition fix_md031_code_blocks :: rule where
  "fix_md031_code_blocks content =
     and_then (re_sub False md031_before [G 1, T [NL, NL], G 2] content) (\<lambda>content.
       re_sub False md031_after [T [NL], G 1, T [NL, NL]] content)"

subsection \<open>MD032: blank line before a marked bullet\<close>

text \<open>
  \<^verbatim>\<open>(### [^\n]+)\n(- [....])\<close>, \<^verbatim>\<open>(## [^\n]+)\n(- [....])\<close> and
  \<^verbatim>\<open>(\*\*[^\n]+\*\*)\n(- [....])\<close>, each to \<^verbatim>\<open>\1\n\n\2\<close>; the class holds the four
  symbols U+2705, U+1F527, U+1F680 and U+1F4CA.
\<close>

definition bullet :: regex where
  "bullet = Seq (Lit (ustr ''- ''))
     (Cls (\<lambda>c. c = CHECK_MARK \<or> c = WRENCH \<or> c = ROCKET \<or> c = BAR_CHART))"

definition md032_heading :: "str \<Rightarrow> regex" where
  "md032_heading marker =
     Seq (Grp 1 (Seq (Lit marker) (Rep 1 (NotChr NL)))) (Seq (Lit [NL]) (Grp 2 bullet))"

definition md032_bold :: regex where
  "md032_bold =
     Seq (Grp 1 (Seq (Lit (ustr ''**'')) (Seq (Rep 1 (NotChr NL)) (Lit (ustr ''**'')))))
       (Seq (Lit [NL]) (Grp 2 bullet))"

definition fix_md032_heading_list_spacing :: rule where
  "fix_md032_heading_list_spacing content =
     and_then (re_sub False (md032_heading (ustr ''### '')) [G 1, T [NL, NL], G 2] content)
       (\<lambda>content.
     and_then (re_sub False (md032_heading (ustr ''## '')) [G 1, T [NL, NL], G 2] content)
       (\<lambda>content.
     re_sub False md032_bold [G 1, T [NL, NL], G 2] content))"

subsection \<open>MD036: emphasis used instead of a heading\<close>

text \<open>
  With \<^verbatim>\<open>re.MULTILINE\<close>: \<^verbatim>\<open>^(\*\*(?:[^*]|\*(?!\*))+ \*\*)$\<close> to \<^verbatim>\<open>### \1\<close>, then
  \<^verbatim>\<open>^\*\*([^*]+)\*\*$\<close> to \<^verbatim>\<open>### \1\<close>, then \<^verbatim>\<open>^<strong>([^<]+)</strong>$\<close> to
  \<^verbatim>\<open>### \1\<close>. A negated class also matches a newline.
\<close>

definition md036_spaced :: regex where
  "md036_spaced =
     Seq Caret
       (Seq (Grp 1 (Seq (Lit (ustr ''**''))
          (Seq (Rep 1 (Alt (NotChr 42) (Seq (Lit [42]) (NotAhead (Lit [42])))))
            (Lit (ustr '' **'')))))
        Dollar)"

definition md036_bold :: regex where
  "md036_bold =
     Seq Caret (Seq (Lit (ustr ''**''))
       (Seq (Grp 1 (Rep 1 (NotChr 42))) (Seq (Lit (ustr ''**'')) Dollar)))"

definition md036_strong :: regex where
  "md036_strong =
     Seq Caret (Seq (Lit (ustr ''<strong>''))
       (Seq (Grp 1 (Rep 1 (NotChr 60))) (Seq (Lit (ustr ''</strong>'')) Dollar)))"

definition fix_md036_emphasis_heading :: rule where
  "fix_md036_emphasis_heading content =
     and_then (re_sub True md036_spaced [T (ustr ''### ''), G 1] content) (\<lambda>content.
     and_then (re_sub True md036_bold [T (ustr ''### ''), G 1] content) (\<lambda>content.
     re_sub True md036_strong [T (ustr ''### ''), G 1] content))"

subsection \<open>MD040: code block language\<close>

text \<open>\<^verbatim>\<open>\n```\n\<close> to \<^verbatim>\<open>\n```bash\n\<close>.\<close>

abbreviation md040_fence :: regex where
  "md040_fence \<equiv> Lit (ustr ''\<newline>```\<newline>'')"

definition fix_md040_code_block_language :: rule where
  "fix_md040_code_block_language content =
     re_sub False md040_fence [T (ustr ''\<newline>```bash\<newline>'')] content"

subsection \<open>MD045: image alt text\<close>

text \<open>
  \<^verbatim>\<open><img src="([^"]+)" width="64">\<close> to \<^verbatim>\<open><img src="\1" width="64" alt="">\<close>.
\<close>

abbreviation md045_img :: regex where
  "md045_img \<equiv>
     Seq (Lit (ustr ''<img src='' @ [DQUOTE]))
       (Seq (Grp 1 (Rep 1 (NotChr DQUOTE)))
         (Lit ([DQUOTE] @ ustr '' width='' @ [DQUOTE] @ ustr ''64'' @ [DQUOTE] @ ustr ''>'')))"

definition fix_md045_image_alt_text :: rule where
  "fix_md045_image_alt_text content =
     re_sub False md045_img
       [T (ustr ''<img src='' @ [DQUOTE]), G 1,
        T ([DQUOTE] @ ustr '' width='' @ [DQUOTE] @ ustr ''64'' @ [DQUOTE]
           @ ustr '' alt='' @ [DQUOTE, DQUOTE] @ ustr ''>'')]
       content"

subsection \<open>MD047: the file ends with one newline\<close>

text \<open>
  A newline is appended when the content does not end with one; then \<^verbatim>\<open>\n+$\<close>
  (without \<^verbatim>\<open>re.MULTILINE\<close>) is replaced by one newline.
\<close>

abbreviation md047_newlines :: regex where
  "md047_newlines \<equiv> Seq (Rep 1 (Chr NL)) Dollar"

definition fix_md047_file_ends_newline :: rule where
  "fix_md047_file_ends_newline content =
     (let content = (if \<not> suffix [NL] content then content @ [NL] else content)
      in re_sub False md047_newlines [T [NL]] content)"

subsection \<open>MD051: link fragments\<close>

text \<open>
  Six patterns that are escaped literals, each with a literal replacement, applied in
  the order of the list.
\<close>

definition md051_fixes :: "(str \<times> str) list" where
  "md051_fixes =
     [(ustr ''[Usage & Features](#usage & features)'',
       ustr ''[Usage & Features](#usage---features)''),
      (ustr ''[Performance](#performance)'', ustr ''[Performance](#performance-1)''),
      (ustr ''[Security](#security)'', ustr ''[Security](#security-1)''),
      (ustr ''[Troubleshooting](#troubleshooting)'',
       ustr ''[Troubleshooting](#troubleshooting-1)''),
      (ustr ''[Contributing](#contributing)'', ustr ''[Contributing](#contributing-1)''),
      (ustr ''[Licensing](#licensing)'', ustr ''[Licensing](#licensing-1)'')]"

fun md051_loop :: "(str \<times> str) list \<Rightarrow> str \<Rightarrow> py_error + str" where
  "md051_loop [] content = Inr content"
| "md051_loop ((pattern, replacement) # fixes) content =
     and_then (re_sub False (Lit pattern) [T replacement] content) (md051_loop fixes)"

definition fix_md051_link_fragments :: rule where
  "fix_md051_link_fragments content = md051_loop md051_fixes content"

subsection \<open>MD012: multiple blank lines\<close>

text \<open>\<^verbatim>\<open>\n{3,}\<close> to two newlines.\<close>

abbreviation md012_run :: regex where
  "md012_run \<equiv> Rep 3 (Chr NL)"

definition fix_md012_multiple_blank_lines :: rule where
  "fix_md012_multiple_blank_lines content = re_sub False md012_run [T [NL, NL]] content"

subsection \<open>MD013: line length\<close>

text \<open>
  The inner loop over \<^verbatim>\<open>parts[1:]\<close>. The two branches of the source differ only in the
  split token: the bound adds its length (1 for the wide comma, 2 for \<^verbatim>\<open>'. '\<close>), a part
  is appended after the token, and a continuation line starts with two spaces and the
  token before the stripped part.
\<close>

fun md013_parts :: "nat \<Rightarrow> str \<Rightarrow> str list \<Rightarrow> str \<Rightarrow> str list \<Rightarrow> str list \<times> str" where
  "md013_parts max_len token new_lines current [] = (new_lines, current)"
| "md013_parts max_len token new_lines current (part # parts) =
     (if length current + length part + length token \<le> max_len
      then md013_parts max_len token new_lines (current @ token @ part) parts
      else md013_parts max_len token (new_lines @ [current])
             (ustr ''  '' @ token @ strip part) parts)"

definition md013_split_line :: "nat \<Rightarrow> str \<Rightarrow> str list \<Rightarrow> str \<Rightarrow> py_error + str list" where
  "md013_split_line max_len token new_lines line =
     (let parts = split line token in
      and_then (getitem parts 0) (\<lambda>current.
        case md013_parts max_len token new_lines current (drop 1 parts) of
          (new_lines, current) \<Rightarrow> Inr (new_lines @ [current])))"

fun md013_loop :: "nat \<Rightarrow> str list \<Rightarrow> str list \<Rightarrow> py_error + str list" where
  "md013_loop max_len new_lines [] = Inr new_lines"
| "md013_loop max_len new_lines (line # lines) =
     (if length line > max_len \<and> PIPE \<notin> set line \<and> BACKTICK \<notin> set line then
        (if WIDE_COMMA \<in> set line then
           and_then (md013_split_line max_len [WIDE_COMMA] new_lines line)
             (\<lambda>new_lines. md013_loop max_len new_lines lines)
         else if contains (ustr ''. '') line then
           and_then (md013_split_line max_len (ustr ''. '') new_lines line)
             (\<lambda>new_lines. md013_loop max_len new_lines lines)
         else md013_loop max_len (new_lines @ [line]) lines)
      else md013_loop max_len (new_lines @ [line]) lines)"

definition fix_md013_line_length :: "str \<Rightarrow> nat \<Rightarrow> py_error + str" where
  "fix_md013_line_length content max_len =
     and_then (md013_loop max_len [] (split content [NL]))
       (\<lambda>new_lines. Inr (join [NL] new_lines))"

subsection \<open>Rule sets and their application\<close>

definition CONTRIBUTING_RULES :: "rule list" where
  "CONTRIBUTING_RULES =
     [fix_md026_trailing_punctuation, (\<lambda>content. fix_md013_line_length content 120),
      fix_md012_multiple_blank_lines, fix_md040_code_block_language,
      fix_md047_file_ends_newline, fix_md030_list_markers, fix_md031_code_blocks]"

definition FAQ_RULES :: "rule list" where
  "FAQ_RULES =
     [fix_md036_emphasis_heading, fix_md032_heading_list_spacing,
      fix_md040_code_block_language, fix_md024_duplicate_headings,
      fix_md012_multiple_blank_lines, fix_md047_file_ends_newline,
      fix_md051_link_fragments]"

definition PRD_RULES :: "rule list" where
  "PRD_RULES =
     [fix_md030_list_markers, fix_md012_multiple_blank_lines, fix_md031_code_blocks,
      (\<lambda>content. fix_md013_line_length content 120), fix_md047_file_ends_newline]"

fun apply_rules :: "str \<Rightarrow> rule list \<Rightarrow> py_error + str" where
  "apply_rules content [] = Inr content"
| "apply_rules content (r # rules) = and_then (r content) (\<lambda>content. apply_rules content rules)"

section \<open>A pattern that matches nowhere\<close>


section \<open>MD024 read line by line\<close>

text \<open>
  \<open>md024_count seen base\<close>: how many of the lines \<open>seen\<close> are level-3 headings with
  the key \<open>base\<close>. \<open>md024_line seen line\<close>: a level-3 heading whose key was counted
  before becomes the marker, the key and the number of this occurrence in brackets;
  any other line stays.
\<close>

definition md024_count :: "str list \<Rightarrow> str \<Rightarrow> nat" where
  "md024_count seen base =
     length (filter (\<lambda>l. prefix (ustr ''### '') l \<and> heading_base l = base) seen)"

definition md024_line :: "str list \<Rightarrow> str \<Rightarrow> str" where
  "md024_line seen line =
     (if prefix (ustr ''### '') line \<and> 0 < md024_count seen (heading_base line)
      then ustr ''### '' @ heading_base line @ ustr '' (''
             @ digits (md024_count seen (heading_base line) + 1) @ ustr '')''
      else line)"

section \<open>MD026 read line by line\<close>

text \<open>
  What MD026 does to one line, used to state its effect on a whole document.
  \<open>colon_heading marker line\<close>: the line is the marker, then a non-empty text
  without a colon, then one colon. \<open>md026_line\<close> drops that colon for the markers of
  level 3 and level 2 and keeps every other line.
\<close>

definition colon_heading :: "str \<Rightarrow> str \<Rightarrow> bool" where
  "colon_heading marker line =
     (prefix marker line \<and>
      (let rest = drop (length marker) line
       in 2 \<le> length rest \<and> last rest = COLON \<and> COLON \<notin> set (butlast rest)))"

definition md026_line :: "str \<Rightarrow> str" where
  "md026_line line =
     (if colon_heading (ustr ''### '') line \<or> colon_heading (ustr ''## '') line
      then butlast line else line)"

definition line_without_colon :: "str \<Rightarrow> str \<Rightarrow> str" where
  "line_without_colon marker line = (if colon_heading marker line then butlast line else line)"

section \<open>Closed forms of two substitutions\<close>

text \<open>
  What the scan of MD012 and the scan of MD047 compute, written as recursion over the
  content; the facts below relate each to its \<open>re_scan\<close>.
\<close>

function collapse :: "str \<Rightarrow> str" where
  "collapse [] = []"
| "collapse (c # cs) =
     (if c = NL \<and> prefix [NL, NL] cs
      then NL # NL # collapse (dropWhile (\<lambda>x. x = NL) cs)
      else c # collapse cs)"
  by pat_completeness auto
termination
  by (relation "measure length") (auto simp: less_Suc_eq_le length_dropWhile_le)

fun trail :: "str \<Rightarrow> str" where
  "trail [] = []"
| "trail (c # cs) =
     (if c = NL \<and> dropWhile (\<lambda>x. x = NL) cs = [] then [NL] else c # trail cs)"

section \<open>Definitions to unfold when a rule is run on a document\<close>

lemmas py_defs = ustr_def split_def heading_base_def strip_def isspace_def and_then_def
  dict_get_def getitem_def re_sub_def

lemmas pattern_defs = md026_pattern_def md031_before_def md031_after_def bullet_def
  md032_heading_def md032_bold_def md036_spaced_def md036_bold_def md036_strong_def

section \<open>Facts about split and join\<close>

lemma split_from_not_Nil: "split_from sep cur s \<noteq> []"
  by (induction sep cur s rule: split_from.induct) auto

lemma join_Cons: "ps \<noteq> [] \<Longrightarrow> join sep (p # ps) = p @ sep @ join sep ps"
  by (cases ps) auto

lemma join_split_from: "join sep (split_from sep cur s) = cur @ s"
proof (induction sep cur s rule: split_from.induct)
  case (1 sep cur)
  show ?case by simp
next
  case (2 sep cur c cs)
  show ?case
  proof (cases "sep \<noteq> [] \<and> prefix sep (c # cs)")
    case True
    then obtain r where r: "c # cs = sep @ r" by (auto simp: prefix_def)
    have d: "drop (length sep - 1) cs = r"
    proof -
      have "drop (length sep) (c # cs) = r" using r by simp
      then show ?thesis using True by (cases sep) auto
    qed
    have e: "split_from sep cur (c # cs) = cur # split_from sep [] r"
      using True d by simp
    have "join sep (split_from sep [] r) = r" using 2(1)[OF True] d by simp
    then show ?thesis
      unfolding e using split_from_not_Nil[of sep "[]" r] r by (simp add: join_Cons)
  next
    case False
    then show ?thesis using 2(2)[OF False] by auto
  qed
qed

lemma join_split: "join sep (split s sep) = s"
  by (simp add: split_def join_split_from)

lemma split_from_no_sep:
  "c \<notin> set cur \<Longrightarrow> l \<in> set (split_from [c] cur s) \<Longrightarrow> c \<notin> set l"
  by (induction "[c]" cur s arbitrary: l rule: split_from.induct) (auto split: if_splits)

lemma split_lines_no_NL: "l \<in> set (split s [NL]) \<Longrightarrow> NL \<notin> set l"
  unfolding split_def by (rule split_from_no_sep[of NL "[]"]) auto

section \<open>Facts about the matcher and the scan\<close>

declare re_scan.simps [simp del]

text \<open>
  The equations of \<open>rmatch\<close> are used at a position only, so that a pattern that is
  the argument of a repetition stays folded.
\<close>

declare rmatch.simps [simp del]

lemma rmatch_Lit [simp]:
  "rmatch ml (Lit l) (prev, s, g) =
     (if prefix l s then [(if l = [] then prev else Some (last l), drop (length l) s, g)]
      else [])"
  by (simp add: rmatch.simps)

lemma rmatch_Cls [simp]:
  "rmatch ml (Cls P) (prev, s, g) =
     (case s of [] \<Rightarrow> [] | c # cs \<Rightarrow> if P c then [(Some c, cs, g)] else [])"
  by (simp add: rmatch.simps)

lemma rmatch_Seq [simp]:
  "rmatch ml (Seq a b) st = concat (map (rmatch ml b) (rmatch ml a st))"
  by (simp add: rmatch.simps)

lemma rmatch_Alt [simp]: "rmatch ml (Alt a b) st = rmatch ml a st @ rmatch ml b st"
  by (simp add: rmatch.simps)

lemma rmatch_Rep [simp]:
  "rmatch ml (Rep n r) (prev, s, g) = rep_from (rmatch ml r) (length s) n (prev, s, g)"
  by (simp add: rmatch.simps)

lemma rmatch_Grp [simp]:
  "rmatch ml (Grp k r) (prev, s, g) =
     map (\<lambda>(prev', s', g'). (prev', s', (k, take (length s - length s') s) # g'))
       (rmatch ml r (prev, s, g))"
  by (simp add: rmatch.simps)

lemma rmatch_Caret [simp]:
  "rmatch ml Caret (prev, s, g) =
     (if prev = None \<or> (ml \<and> prev = Some NL) then [(prev, s, g)] else [])"
  by (simp add: rmatch.simps)

lemma rmatch_Dollar [simp]:
  "rmatch ml Dollar (prev, s, g) =
     (if s = [] \<or> (if ml then take 1 s = [NL] else s = [NL]) then [(prev, s, g)] else [])"
  by (simp add: rmatch.simps)

lemma rmatch_NotAhead [simp]:
  "rmatch ml (NotAhead r) st = (if rmatch ml r st = [] then [st] else [])"
  by (simp add: rmatch.simps)

lemma re_scan_Nil: "rmatch ml r (prev, [], []) = [] \<Longrightarrow> re_scan ml r t prev [] = []"
  by (simp add: re_scan.simps)

lemma re_scan_copy:
  "rmatch ml r (prev, c # cs, []) = [] \<Longrightarrow>
     re_scan ml r t prev (c # cs) = c # re_scan ml r t (Some c) cs"
  by (simp add: re_scan.simps)

lemma re_scan_match:
  "rmatch ml r (prev, s, []) = (p', s', g) # ms \<Longrightarrow> length s' < length s \<Longrightarrow>
     re_scan ml r t prev s = expand t g @ re_scan ml r t p' s'"
  by (simp add: re_scan.simps)

text \<open>Repetition of a character class follows the subject one character at a time.\<close>

lemma rep_cls_Nil:
  "rep_from (rmatch ml (Cls P)) fuel n (prev, [], g) = (if n = 0 then [(prev, [], g)] else [])"
  by (cases fuel) simp_all

lemma rep_cls_Cons:
  "rep_from (rmatch ml (Cls P)) (Suc fuel) n (prev, c # cs, g) =
     (if P c then rep_from (rmatch ml (Cls P)) fuel (n - 1) (Some c, cs, g) else [])
     @ (if n = 0 then [(prev, c # cs, g)] else [])"
  by simp


lemma rep_cls_short:
  "length (takeWhile P s) < n \<Longrightarrow> rep_from (rmatch ml (Cls P)) fuel n (p, s, g) = []"
proof (induction s arbitrary: fuel n p)
  case Nil
  then show ?case by (simp add: rep_cls_Nil)
next
  case (Cons c cs)
  show ?case
  proof (cases fuel)
    case 0
    then show ?thesis using Cons.prems by simp
  next
    case (Suc f)
    show ?thesis
      unfolding Suc rep_cls_Cons using Cons.prems Cons.IH[of "n - 1" f "Some c"]
      by (auto split: if_splits)
  qed
qed

lemma rep_cls_hd:
  "length s \<le> fuel \<Longrightarrow> n \<le> length (takeWhile P s) \<Longrightarrow>
     \<exists>p' ms. rep_from (rmatch ml (Cls P)) fuel n (p, s, g) = (p', dropWhile P s, g) # ms"
proof (induction s arbitrary: fuel n p)
  case Nil
  then show ?case by (simp add: rep_cls_Nil)
next
  case (Cons c cs)
  then obtain f where f: "fuel = Suc f" by (cases fuel) auto
  show ?case
  proof (cases "P c")
    case True
    have "\<exists>p' ms. rep_from (rmatch ml (Cls P)) f (n - 1) (Some c, cs, g)
            = (p', dropWhile P cs, g) # ms"
      using Cons.IH[of f "n - 1" "Some c"] Cons.prems True f by simp
    then show ?thesis unfolding f rep_cls_Cons using True by auto
  next
    case False
    then show ?thesis unfolding f rep_cls_Cons using Cons.prems by simp
  qed
qed

lemma suffix_dropWhile_Cons: "suffix (dropWhile P cs) (c # cs)"
  by (meson suffix_dropWhile suffix_ConsI)

lemma prefix2_1: "prefix [a, b] t \<Longrightarrow> prefix [a] t"
  by (auto simp: prefix_def)

lemma rep_cls_set:
  "(p', s', g') \<in> set (rep_from (rmatch ml (Cls P)) fuel n (p, s, g)) \<Longrightarrow>
     suffix (dropWhile P s) s' \<and> g' = g"
proof (induction s arbitrary: fuel n p)
  case Nil
  then show ?case by (simp add: rep_cls_Nil split: if_splits)
next
  case (Cons c cs)
  show ?case
  proof (cases fuel)
    case 0
    then show ?thesis using Cons.prems by (auto split: if_splits simp: suffix_dropWhile_Cons)
  next
    case (Suc f)
    from Cons.prems have
      "(P c \<and> (p', s', g') \<in> set (rep_from (rmatch ml (Cls P)) f (n - 1) (Some c, cs, g)))
        \<or> (p', s', g') = (p, c # cs, g)"
      unfolding Suc rep_cls_Cons by (auto split: if_splits)
    then show ?thesis
    proof
      assume a: "P c \<and> (p', s', g') \<in> set (rep_from (rmatch ml (Cls P)) f (n - 1) (Some c, cs, g))"
      then show ?thesis using Cons.IH[of f "n - 1" "Some c"] by simp
    next
      assume "(p', s', g') = (p, c # cs, g)"
      then show ?thesis by (auto simp: suffix_dropWhile_Cons)
    qed
  qed
qed

lemma short_run: "\<not> (c = NL \<and> prefix [NL, NL] cs) \<Longrightarrow> length (takeWhile (\<lambda>x. x = NL) (c # cs)) < 3"
  by (cases cs; cases "tl cs") auto

lemma md012_scan_collapse:
  "re_scan False (Rep 3 (Chr NL)) [T [NL, NL]] p s = collapse s"
proof (induction s arbitrary: p rule: collapse.induct)
  case 1
  show ?case by (simp add: re_scan_Nil rep_cls_Nil)
next
  case (2 c cs)
  show ?case
  proof (cases "c = NL \<and> prefix [NL, NL] cs")
    case True
    then obtain cs' where cs: "cs = NL # NL # cs'" by (auto simp: prefix_def)
    have "3 \<le> length (takeWhile (\<lambda>x. x = NL) (c # cs))" using True cs by simp
    from rep_cls_hd[OF le_refl this, of False p "[]"]
    obtain p' ms where m: "rmatch False (Rep 3 (Chr NL)) (p, c # cs, [])
        = (p', dropWhile (\<lambda>x. x = NL) cs, []) # ms"
      using True by auto
    have len: "length (dropWhile (\<lambda>x. x = NL) cs) < length (c # cs)"
      using length_dropWhile_le[of "\<lambda>x. x = NL" cs] by simp
    have cl: "collapse (c # cs) = NL # NL # collapse (dropWhile (\<lambda>x. x = NL) cs)"
      using True by simp
    show ?thesis
      unfolding re_scan_match[OF m len] cl using 2(1)[OF True, of p'] by simp
  next
    case False
    have nomatch: "rmatch False (Rep 3 (Chr NL)) (p, c # cs, []) = []"
      unfolding rmatch_Rep by (rule rep_cls_short[OF short_run[OF False]])
    have cl: "collapse (c # cs) = c # collapse cs" using False by auto
    show ?thesis
      unfolding re_scan_copy[OF nomatch] cl using 2(2)[OF False, of "Some c"] by simp
  qed
qed

lemma collapse_prefix_NL: "prefix [NL] (collapse s) = prefix [NL] s"
  by (cases s) auto

lemma collapse_prefix_NL2: "prefix [NL, NL] (collapse s) = prefix [NL, NL] s"
proof (cases s)
  case Nil
  then show ?thesis by simp
next
  case (Cons a as)
  show ?thesis
  proof (cases "a = NL \<and> prefix [NL, NL] as")
    case True
    then show ?thesis unfolding Cons by (auto simp: prefix_def)
  next
    case False
    then show ?thesis using collapse_prefix_NL[of as] unfolding Cons by auto
  qed
qed

lemma not_prefix_dropWhile: "\<not> prefix [x] (dropWhile (\<lambda>y. y = x) cs)"
proof
  assume "prefix [x] (dropWhile (\<lambda>y. y = x) cs)"
  then obtain r where r: "dropWhile (\<lambda>y. y = x) cs = x # r" by (auto simp: prefix_def)
  then have "dropWhile (\<lambda>y. y = x) cs \<noteq> []" by simp
  from hd_dropWhile[OF this] r show False by simp
qed

lemma collapse_run:
  "prefix [NL, NL] cs \<Longrightarrow> collapse (NL # cs) = NL # NL # collapse (dropWhile (\<lambda>x. x = NL) cs)"
  by simp

lemma collapse_copy:
  "\<not> (c = NL \<and> prefix [NL, NL] cs) \<Longrightarrow> collapse (c # cs) = c # collapse cs"
  by auto

lemma collapse_idem: "collapse (collapse s) = collapse s"
proof (induction s rule: collapse.induct)
  case 1
  show ?case by simp
next
  case (2 c cs)
  show ?case
  proof (cases "c = NL \<and> prefix [NL, NL] cs")
    case True
    let ?r = "dropWhile (\<lambda>x. x = NL) cs"
    have "\<not> prefix [NL] ?r" by (rule not_prefix_dropWhile)
    then have n: "\<not> prefix [NL] (collapse ?r)" using collapse_prefix_NL[of ?r] by blast
    then have n1: "\<not> (NL = NL \<and> prefix [NL, NL] (NL # collapse ?r))" by simp
    have n2: "\<not> (NL = NL \<and> prefix [NL, NL] (collapse ?r))"
      using n prefix2_1[of NL NL "collapse ?r"] by auto
    have a: "collapse (c # cs) = NL # NL # collapse ?r"
      using True collapse_run[of cs] by simp
    show ?thesis
      unfolding a collapse_copy[OF n1] collapse_copy[OF n2] using 2(1)[OF True] by simp
  next
    case False
    then have n: "\<not> (c = NL \<and> prefix [NL, NL] (collapse cs))"
      using collapse_prefix_NL2[of cs] by blast
    show ?thesis
      unfolding collapse_copy[OF False] collapse_copy[OF n] using 2(2)[OF False] by simp
  qed
qed

lemma md012_closed_form: "fix_md012_multiple_blank_lines x = Inr (collapse x)"
  by (simp add: fix_md012_multiple_blank_lines_def re_sub_def md012_scan_collapse)

lemma concat_map_Nil: "(\<And>x. x \<in> set xs \<Longrightarrow> f x = []) \<Longrightarrow> concat (map f xs) = []"
  by (induction xs) auto

lemma md047_scan_trail:
  "re_scan False (Seq (Rep 1 (Chr NL)) Dollar) [T [NL]] p s = trail s"
proof (induction s arbitrary: p)
  case Nil
  show ?case by (simp add: re_scan_Nil rep_cls_Nil)
next
  case (Cons c cs)
  let ?d = "dropWhile (\<lambda>x. x = NL) cs"
  show ?case
  proof (cases "c = NL \<and> ?d = []")
    case True
    have "1 \<le> length (takeWhile (\<lambda>x. x = NL) (c # cs))" using True by simp
    from rep_cls_hd[OF le_refl this, of False p "[]"]
    obtain p' ms where r: "rep_from (rmatch False (Chr NL)) (length (c # cs)) 1 (p, c # cs, [])
        = (p', [], []) # ms"
      using True by auto
    have m: "rmatch False (Seq (Rep 1 (Chr NL)) Dollar) (p, c # cs, [])
               = (p', [], []) # concat (map (rmatch False Dollar) ms)"
      unfolding rmatch_Seq rmatch_Rep r by simp
    have e: "re_scan False (Seq (Rep 1 (Chr NL)) Dollar) [T [NL]] p' [] = []"
      by (simp add: re_scan_Nil rep_cls_Nil)
    have t: "trail (c # cs) = [NL]" using True by simp
    show ?thesis unfolding t using re_scan_match[OF m, of "[T [NL]]"] e by simp
  next
    case False
    have "rmatch False (Seq (Rep 1 (Chr NL)) Dollar) (p, c # cs, []) = []"
    proof (cases "c = NL")
      case c: True
      with False have d: "?d \<noteq> []" by simp
      have "\<And>x. x \<in> set (rep_from (rmatch False (Chr NL)) (length (c # cs)) 1 (p, c # cs, []))
               \<Longrightarrow> rmatch False Dollar x = []"
      proof -
        fix x assume x: "x \<in> set (rep_from (rmatch False (Chr NL)) (length (c # cs)) 1 (p, c # cs, []))"
        obtain p' s' g' where xe: "x = (p', s', g')" by (cases x) auto
        from rep_cls_set[OF x[unfolded xe]] c have suf: "suffix ?d s'" by simp
        from d obtain a as where da: "?d = a # as" by (cases ?d) auto
        have "a \<noteq> NL" using hd_dropWhile[OF d] da by simp
        with suf da have "s' \<noteq> [] \<and> s' \<noteq> [NL]" by (auto simp: suffix_def append_eq_Cons_conv)
        then show "rmatch False Dollar x = []" unfolding xe by simp
      qed
      then show ?thesis unfolding rmatch_Seq rmatch_Rep by (rule concat_map_Nil)
    next
      case c: False
      then have "rep_from (rmatch False (Chr NL)) (length (c # cs)) 1 (p, c # cs, []) = []"
        by (intro rep_cls_short) simp
      then show ?thesis unfolding rmatch_Seq rmatch_Rep by simp
    qed
    from re_scan_copy[OF this] have
      cp: "re_scan False (Seq (Rep 1 (Chr NL)) Dollar) [T [NL]] p (c # cs)
             = c # re_scan False (Seq (Rep 1 (Chr NL)) Dollar) [T [NL]] (Some c) cs" .
    have t: "trail (c # cs) = c # trail cs" using False by auto
    show ?thesis unfolding cp t using Cons.IH[of "Some c"] by simp
  qed
qed

lemma trail_all_NL: "(dropWhile (\<lambda>x. x = NL) (trail s) = []) = (dropWhile (\<lambda>x. x = NL) s = [])"
  by (induction s) auto

lemma trail_suffix: "suffix [NL] s \<Longrightarrow> suffix [NL] (trail s)"
proof (induction s)
  case Nil
  then show ?case by simp
next
  case (Cons c cs)
  show ?case
  proof (cases "c = NL \<and> dropWhile (\<lambda>x. x = NL) cs = []")
    case True
    then show ?thesis by simp
  next
    case False
    then have cs: "cs \<noteq> []" using Cons.prems by (cases cs) (auto simp: suffix_def)
    then have "suffix [NL] cs" using Cons.prems by (auto simp: suffix_def Cons_eq_append_conv)
    then have "suffix [NL] (trail cs)" by (rule Cons.IH)
    then have "suffix [NL] (c # trail cs)" by (rule suffix_ConsI)
    then show ?thesis using False by auto
  qed
qed

lemma trail_idem: "trail (trail s) = trail s"
proof (induction s)
  case Nil
  show ?case by simp
next
  case (Cons c cs)
  show ?case
  proof (cases "c = NL \<and> dropWhile (\<lambda>x. x = NL) cs = []")
    case True
    then show ?thesis by simp
  next
    case False
    then have t: "trail (c # cs) = c # trail cs" by auto
    have n: "\<not> (c = NL \<and> dropWhile (\<lambda>x. x = NL) (trail cs) = [])"
      using False trail_all_NL[of cs] by blast
    then have t2: "trail (c # trail cs) = c # trail (trail cs)" by auto
    show ?thesis unfolding t t2 using Cons.IH by simp
  qed
qed

lemma md047_closed_form:
  "fix_md047_file_ends_newline x = Inr (trail (if suffix [NL] x then x else x @ [NL]))"
  by (simp add: fix_md047_file_ends_newline_def re_sub_def md047_scan_trail[unfolded One_nat_def])

lemma rep_cls_then:
  assumes fail: "\<And>p c r. P c \<Longrightarrow> cont (p, c # r, g) = []"
  shows "length (t @ r) \<le> fuel \<Longrightarrow> \<forall>c\<in>set t. P c \<Longrightarrow> r = [] \<or> \<not> P (hd r) \<Longrightarrow>
     concat (map cont (rep_from (rmatch ml (Cls P)) fuel n (p, t @ r, g)))
       = (if n \<le> length t then cont (if t = [] then p else Some (last t), r, g) else [])"
proof (induction t arbitrary: fuel n p)
  case Nil
  show ?case
  proof (cases r)
    case Nil
    then show ?thesis by (simp add: rep_cls_Nil)
  next
    case (Cons c cs)
    with Nil.prems have np: "\<not> P c" by simp
    from Nil.prems Cons obtain f where f: "fuel = Suc f" by (cases fuel) auto
    show ?thesis unfolding Cons f using np by (simp add: rep_cls_Cons)
  qed
next
  case (Cons a t)
  then obtain f where f: "fuel = Suc f" by (cases fuel) auto
  have pa: "P a" using Cons.prems by simp
  have ih: "concat (map cont (rep_from (rmatch ml (Cls P)) f (n - 1) (Some a, t @ r, g)))
       = (if n - 1 \<le> length t then cont (if t = [] then Some a else Some (last t), r, g) else [])"
    using Cons.IH[of f "n - 1" "Some a"] Cons.prems f by simp
  have "concat (map cont (rep_from (rmatch ml (Cls P)) fuel n (p, (a # t) @ r, g)))
      = concat (map cont (rep_from (rmatch ml (Cls P)) f (n - 1) (Some a, t @ r, g)))"
    unfolding f using pa fail[OF pa] by (simp add: rep_cls_Cons)
  then show ?case unfolding ih by auto
qed

lemma prefix_line:
  assumes "rest = [] \<or> hd rest = NL" "NL \<notin> set m"
  shows "prefix m (l @ rest) = prefix m l"
proof
  assume "prefix m (l @ rest)"
  then consider "prefix m l" | us where "m = l @ us" "prefix us rest" "us \<noteq> []"
    by (fastforce simp: prefix_append)
  then show "prefix m l"
  proof cases
    case 1
    then show ?thesis .
  next
    case 2
    then obtain u us' where u: "us = u # us'" by (cases us) auto
    with 2 have "rest \<noteq> [] \<and> hd rest = u" by (auto simp: prefix_def)
    with assms(1) have "u = NL" by auto
    with 2 u assms(2) show ?thesis by auto
  qed
next
  assume "prefix m l"
  then show "prefix m (l @ rest)" by (rule prefix_prefix)
qed

lemma colon_heading_iff:
  "colon_heading m l = (\<exists>t. l = m @ t @ [COLON] \<and> t \<noteq> [] \<and> COLON \<notin> set t)"
proof
  assume h: "colon_heading m l"
  then obtain l2 where l: "l = m @ l2" by (auto simp: colon_heading_def prefix_def)
  with h have l2: "2 \<le> length l2" "last l2 = COLON" "COLON \<notin> set (butlast l2)"
    by (auto simp: colon_heading_def Let_def)
  then have "l2 \<noteq> []" by auto
  then have "l2 = butlast l2 @ [COLON]" using l2(2) by (metis append_butlast_last_id)
  moreover have "butlast l2 \<noteq> []" using l2(1) by (cases l2; cases "tl l2") auto
  ultimately show "\<exists>t. l = m @ t @ [COLON] \<and> t \<noteq> [] \<and> COLON \<notin> set t"
    using l l2(3) by auto
next
  assume "\<exists>t. l = m @ t @ [COLON] \<and> t \<noteq> [] \<and> COLON \<notin> set t"
  then obtain t where t: "l = m @ t @ [COLON]" "t \<noteq> []" "COLON \<notin> set t" by auto
  then have "2 \<le> length (t @ [COLON])" by (cases t) auto
  with t show "colon_heading m l" by (simp add: colon_heading_def Let_def)
qed

lemma md026_tail:
  assumes rest: "rest = [] \<or> hd rest = NL" and nl: "NL \<notin> set u"
  shows "rmatch True (Seq (Lit [COLON]) Dollar) (p, u @ rest, g)
           = (if u = [COLON] then [(Some COLON, rest, g)] else [])"
proof (cases u)
  case Nil
  then show ?thesis using rest by (cases rest) auto
next
  case (Cons x u')
  show ?thesis
  proof (cases "x = COLON")
    case False
    then show ?thesis using Cons by simp
  next
    case True
    show ?thesis
    proof (cases u')
      case Nil
      then show ?thesis using Cons True rest by (cases rest) auto
    next
      case (Cons y u'')
      then have "y \<noteq> NL" using nl \<open>u = x # u'\<close> by auto
      then show ?thesis using Cons True \<open>u = x # u'\<close> by simp
    qed
  qed
qed

lemma colon_heading_split:
  assumes nl: "NL \<notin> set l2"
  shows "colon_heading m (m @ l2) =
     (takeWhile (\<lambda>c. c \<noteq> COLON \<and> c \<noteq> NL) l2 \<noteq> []
      \<and> dropWhile (\<lambda>c. c \<noteq> COLON \<and> c \<noteq> NL) l2 = [COLON])"
proof -
  let ?Q = "\<lambda>c. c \<noteq> COLON \<and> c \<noteq> NL"
  show ?thesis
  proof
    assume "colon_heading m (m @ l2)"
    then obtain t where t: "l2 = t @ [COLON]" "t \<noteq> []" "COLON \<notin> set t"
      by (auto simp: colon_heading_iff)
    with nl have q: "\<forall>x\<in>set t. ?Q x" by auto
    have "takeWhile ?Q l2 = t" unfolding t(1) using q by (simp add: takeWhile_append2)
    moreover have "dropWhile ?Q l2 = [COLON]" unfolding t(1) using q by (simp add: dropWhile_append2)
    ultimately show "takeWhile ?Q l2 \<noteq> [] \<and> dropWhile ?Q l2 = [COLON]" using t(2) by simp
  next
    assume a: "takeWhile ?Q l2 \<noteq> [] \<and> dropWhile ?Q l2 = [COLON]"
    have "l2 = takeWhile ?Q l2 @ dropWhile ?Q l2" by simp
    then have l2: "l2 = takeWhile ?Q l2 @ [COLON]" using a by simp
    have "COLON \<notin> set (takeWhile ?Q l2)" using set_takeWhileD[of COLON ?Q l2] by auto
    then show "colon_heading m (m @ l2)"
      unfolding colon_heading_iff using a l2 by (intro exI[of _ "takeWhile ?Q l2"]) auto
  qed
qed

lemma md026_match:
  assumes bol: "prev = None \<or> prev = Some NL"
    and nl: "NL \<notin> set l" and rest: "rest = [] \<or> hd rest = NL"
    and m: "m \<noteq> []" "NL \<notin> set m"
  shows "rmatch True (md026_pattern m) (prev, l @ rest, [])
           = (if colon_heading m l then [(Some COLON, rest, [(1, butlast l)])] else [])"
proof -
  let ?Q = "\<lambda>c. c \<noteq> COLON \<and> c \<noteq> NL"
  let ?X = "Seq (Lit [COLON]) Dollar"
  let ?G = "Grp 1 (Seq (Lit m) (Rep 1 (Cls ?Q)))"
  have caret: "rmatch True (md026_pattern m) (prev, l @ rest, [])
      = concat (map (rmatch True ?X) (rmatch True ?G (prev, l @ rest, [])))"
    using bol by (auto simp: md026_pattern_def)
  show ?thesis
  proof (cases "prefix m l")
    case False
    then have "\<not> prefix m (l @ rest)" using prefix_line[OF rest m(2)] by simp
    then have "rmatch True ?G (prev, l @ rest, []) = []" by simp
    moreover have "\<not> colon_heading m l" using False by (simp add: colon_heading_def)
    ultimately show ?thesis unfolding caret by simp
  next
    case True
    then obtain l2 where l: "l = m @ l2" by (auto simp: prefix_def)
    define t where "t = takeWhile ?Q l2"
    define u where "u = dropWhile ?Q l2"
    have l2: "l2 = t @ u" by (simp add: t_def u_def)
    have nlu: "NL \<notin> set u" using nl l l2 by auto
    define s0 where "s0 = l @ rest"
    define grp :: "mpos \<Rightarrow> mpos"
      where "grp = (\<lambda>(p', s', g'). (p', s', (1, take (length s0 - length s') s0) # g'))"
    define cont where "cont = (\<lambda>st. rmatch True ?X (grp st))"
    have g: "rmatch True ?G (prev, l @ rest, [])
        = map grp (rep_from (rmatch True (Cls ?Q)) (length (t @ u @ rest)) 1
            (Some (last m), t @ u @ rest, []))"
      using m(1) by (simp add: l l2 grp_def s0_def)
    have whole: "rmatch True (md026_pattern m) (prev, l @ rest, [])
        = concat (map cont (rep_from (rmatch True (Cls ?Q)) (length (t @ u @ rest)) 1
            (Some (last m), t @ u @ rest, [])))"
      unfolding caret g cont_def by (simp add: comp_def)
    have fail: "\<And>p c r. ?Q c \<Longrightarrow> cont (p, c # r, []) = []"
      by (simp add: cont_def grp_def)
    have allq: "\<forall>c\<in>set t. ?Q c" unfolding t_def using set_takeWhileD[of _ ?Q l2] by blast
    have stop: "u @ rest = [] \<or> \<not> ?Q (hd (u @ rest))"
    proof (cases u)
      case Nil
      then show ?thesis using rest by auto
    next
      case (Cons x u')
      then have "dropWhile ?Q l2 \<noteq> []" by (simp add: u_def)
      from hd_dropWhile[OF this] show ?thesis using Cons by (simp add: u_def)
    qed
    have r: "concat (map cont (rep_from (rmatch True (Cls ?Q)) (length (t @ u @ rest)) 1
            (Some (last m), t @ u @ rest, [])))
        = (if 1 \<le> length t then cont (if t = [] then Some (last m) else Some (last t), u @ rest, [])
           else [])"
      using rep_cls_then[of ?Q cont "[]" t "u @ rest" "length (t @ u @ rest)" True 1 "Some (last m)",
          OF fail _ allq stop] by simp
    have tail: "\<And>p. cont (p, u @ rest, [])
        = (if u = [COLON] then [(Some COLON, rest, [(1, take (length s0 - length (u @ rest)) s0)])]
           else [])"
      unfolding cont_def grp_def using md026_tail[OF rest nlu] by simp
    have ch: "colon_heading m l = (t \<noteq> [] \<and> u = [COLON])"
      unfolding l t_def u_def using colon_heading_split[of l2 m] nl l by simp
    show ?thesis
    proof (cases "t \<noteq> [] \<and> u = [COLON]")
      case True
      then have "take (length s0 - length (u @ rest)) s0 = butlast l"
        by (simp add: s0_def l l2 butlast_append)
      then show ?thesis unfolding whole r tail ch using True by (cases t) auto
    next
      case False
      then show ?thesis unfolding whole r tail ch by (cases t) auto
    qed
  qed
qed

lemma md026_not_bol:
  "c \<noteq> NL \<Longrightarrow> rmatch True (md026_pattern m) (Some c, s, []) = []"
  by (simp add: md026_pattern_def)

lemma md026_skip:
  "NL \<notin> set l \<Longrightarrow> c \<noteq> NL \<Longrightarrow>
     re_scan True (md026_pattern m) t (Some c) (l @ rest)
       = l @ re_scan True (md026_pattern m) t (if l = [] then Some c else Some (last l)) rest"
proof (induction l arbitrary: c)
  case Nil
  show ?case by simp
next
  case (Cons a l)
  have a: "a \<noteq> NL" using Cons.prems by auto
  have "re_scan True (md026_pattern m) t (Some c) (a # l @ rest)
      = a # re_scan True (md026_pattern m) t (Some a) (l @ rest)"
    by (rule re_scan_copy, rule md026_not_bol, rule Cons.prems(2))
  then have "re_scan True (md026_pattern m) t (Some c) ((a # l) @ rest)
      = a # re_scan True (md026_pattern m) t (Some a) (l @ rest)" by simp
  also have "\<dots> = a # l @ re_scan True (md026_pattern m) t
      (if l = [] then Some a else Some (last l)) rest"
    using Cons.IH[OF _ a] Cons.prems by simp
  finally show ?case by simp
qed

lemma md026_line_end:
  assumes bol: "p = None \<or> p = Some NL" and nl: "NL \<notin> set l"
    and m: "m \<noteq> []" "NL \<notin> set m"
  shows "re_scan True (md026_pattern m) [G 1] p l = line_without_colon m l"
proof (cases "colon_heading m l")
  case True
  have mt: "rmatch True (md026_pattern m) (p, l, []) = [(Some COLON, [], [(1, butlast l)])]"
    using md026_match[OF bol nl _ m, of "[]"] True by simp
  have "l \<noteq> []" using True by (auto simp: colon_heading_iff)
  then have len: "length ([]::str) < length l" by simp
  have e: "re_scan True (md026_pattern m) [G 1] (Some COLON) [] = []"
    by (rule re_scan_Nil[OF md026_not_bol]) simp
  show ?thesis
    unfolding re_scan_match[OF mt len] e using True by (simp add: line_without_colon_def)
next
  case False
  have mt: "rmatch True (md026_pattern m) (p, l, []) = []"
    using md026_match[OF bol nl _ m, of "[]"] False by simp
  show ?thesis
  proof (cases l)
    case Nil
    then show ?thesis using re_scan_Nil[OF mt[unfolded Nil]] False
      by (simp add: line_without_colon_def)
  next
    case (Cons a l')
    have a: "a \<noteq> NL" using nl Cons by auto
    have "NL \<notin> set l'" using nl Cons by auto
    from md026_skip[OF this a, of m "[G 1]" "[]"]
    have sk: "re_scan True (md026_pattern m) [G 1] (Some a) l'
        = l' @ re_scan True (md026_pattern m) [G 1] (if l' = [] then Some a else Some (last l')) []"
      by simp
    have e: "re_scan True (md026_pattern m) [G 1] (if l' = [] then Some a else Some (last l')) [] = []"
    proof (rule re_scan_Nil)
      have "last (a # l') \<noteq> NL" using nl Cons by (metis last_in_set list.discI)
      then show "rmatch True (md026_pattern m) (if l' = [] then Some a else Some (last l'), [], []) = []"
        using a by (auto simp: md026_not_bol)
    qed
    show ?thesis
      using re_scan_copy[OF mt[unfolded Cons], of "[G 1]"] sk e False
      by (simp add: line_without_colon_def Cons)
  qed
qed

lemma md026_line_NL:
  assumes bol: "p = None \<or> p = Some NL" and nl: "NL \<notin> set l"
    and m: "m \<noteq> []" "NL \<notin> set m"
  shows "re_scan True (md026_pattern m) [G 1] p (l @ NL # r)
           = line_without_colon m l @ NL # re_scan True (md026_pattern m) [G 1] (Some NL) r"
proof -
  have nlcopy: "\<And>c. c \<noteq> NL \<Longrightarrow> re_scan True (md026_pattern m) [G 1] (Some c) (NL # r)
      = NL # re_scan True (md026_pattern m) [G 1] (Some NL) r"
    by (rule re_scan_copy[OF md026_not_bol])
  show ?thesis
  proof (cases "colon_heading m l")
    case True
    have mt: "rmatch True (md026_pattern m) (p, l @ NL # r, [])
        = [(Some COLON, NL # r, [(1, butlast l)])]"
      using md026_match[OF bol nl _ m, of "NL # r"] True by simp
    have "l \<noteq> []" using True by (auto simp: colon_heading_iff)
    then have len: "length (NL # r) < length (l @ NL # r)" by (cases l) auto
    show ?thesis
      unfolding re_scan_match[OF mt len] using nlcopy[of COLON] True
      by (simp add: line_without_colon_def)
  next
    case False
    have mt: "rmatch True (md026_pattern m) (p, l @ NL # r, []) = []"
      using md026_match[OF bol nl _ m, of "NL # r"] False by simp
    show ?thesis
    proof (cases l)
      case Nil
      then show ?thesis using re_scan_copy[OF mt[unfolded Nil, simplified], of "[G 1]"] False
        by (simp add: line_without_colon_def)
    next
      case (Cons a l')
      have a: "a \<noteq> NL" using nl Cons by auto
      have "NL \<notin> set l'" using nl Cons by auto
      from md026_skip[OF this a, of m "[G 1]" "NL # r"]
      have sk: "re_scan True (md026_pattern m) [G 1] (Some a) (l' @ NL # r)
          = l' @ re_scan True (md026_pattern m) [G 1]
              (if l' = [] then Some a else Some (last l')) (NL # r)" .
      have "last (a # l') \<noteq> NL" using nl Cons by (metis last_in_set list.discI)
      then have e: "re_scan True (md026_pattern m) [G 1]
              (if l' = [] then Some a else Some (last l')) (NL # r)
            = NL # re_scan True (md026_pattern m) [G 1] (Some NL) r"
        using a nlcopy by (cases "l' = []") auto
      show ?thesis
        using re_scan_copy[OF mt[unfolded Cons, simplified], of "[G 1]"] sk e False
        by (simp add: line_without_colon_def Cons)
    qed
  qed
qed

lemma md026_lines:
  assumes m: "m \<noteq> []" "NL \<notin> set m"
  shows "p = None \<or> p = Some NL \<Longrightarrow> \<forall>l\<in>set ls. NL \<notin> set l \<Longrightarrow>
     re_scan True (md026_pattern m) [G 1] p (join [NL] ls)
       = join [NL] (map (line_without_colon m) ls)"
proof (induction "[NL]" ls arbitrary: p rule: join.induct)
  case 1
  show ?case using md026_line_end[OF "1.prems"(1) _ m, of "[]"]
    by (simp add: line_without_colon_def colon_heading_iff)
next
  case (2 l)
  then show ?case using md026_line_end[OF "2.prems"(1) _ m, of l] by simp
next
  case (3 l l2 ls)
  have nl: "NL \<notin> set l" using "3.prems" by simp
  have "re_scan True (md026_pattern m) [G 1] p (join [NL] (l # l2 # ls))
      = line_without_colon m l @ NL #
          re_scan True (md026_pattern m) [G 1] (Some NL) (join [NL] (l2 # ls))"
    using md026_line_NL[OF "3.prems"(1) nl m, of "join [NL] (l2 # ls)"] by simp
  also have "re_scan True (md026_pattern m) [G 1] (Some NL) (join [NL] (l2 # ls))
      = join [NL] (map (line_without_colon m) (l2 # ls))"
    using "3.hyps"[of "Some NL"] "3.prems" by simp
  finally show ?case by simp
qed

lemma md026_two_passes:
  "line_without_colon (ustr ''## '') (line_without_colon (ustr ''### '') l) = md026_line l"
proof (cases "colon_heading (ustr ''### '') l")
  case True
  then obtain t where t: "l = ustr ''### '' @ t @ [COLON]"
    by (auto simp: colon_heading_iff)
  then have b: "butlast l = ustr ''### '' @ t" by (simp add: butlast_append)
  have "\<not> prefix (ustr ''## '') (butlast l)" unfolding b by (simp add: ustr_def)
  then have "\<not> colon_heading (ustr ''## '') (butlast l)" by (simp add: colon_heading_def)
  then show ?thesis using True by (simp add: line_without_colon_def md026_line_def)
next
  case False
  then show ?thesis by (simp add: line_without_colon_def md026_line_def)
qed

lemma md026_by_lines:
  "fix_md026_trailing_punctuation content
     = Inr (join [NL] (map md026_line (split content [NL])))"
proof -
  let ?ls = "split content [NL]"
  let ?ls' = "map (line_without_colon (ustr ''### '')) ?ls"
  have nl: "\<forall>l\<in>set ?ls. NL \<notin> set l" using split_lines_no_NL by blast
  have nl': "\<forall>l\<in>set ?ls'. NL \<notin> set l"
    using nl by (auto simp: line_without_colon_def dest: in_set_butlastD)
  have m3: "ustr ''### '' \<noteq> []" "NL \<notin> set (ustr ''### '')" by (simp_all add: ustr_def)
  have m2: "ustr ''## '' \<noteq> []" "NL \<notin> set (ustr ''## '')" by (simp_all add: ustr_def)
  have one: "re_scan True (md026_pattern (ustr ''### '')) [G 1] None content = join [NL] ?ls'"
    using md026_lines[OF m3 _ nl, of None] by (simp add: join_split)
  have two: "re_scan True (md026_pattern (ustr ''## '')) [G 1] None (join [NL] ?ls')
      = join [NL] (map (line_without_colon (ustr ''## '')) ?ls')"
    using md026_lines[OF m2 _ nl', of None] by simp
  have eq: "map (line_without_colon (ustr ''## '')) ?ls' = map md026_line ?ls"
    by (simp add: md026_two_passes)
  have ok: "\<And>m. template_ok (md026_pattern m) [G 1]" by (simp add: md026_pattern_def)
  have s1: "re_sub True (md026_pattern (ustr ''### '')) [G 1] content = Inr (join [NL] ?ls')"
    unfolding re_sub_def by (simp only: ok one if_True)
  have s2: "re_sub True (md026_pattern (ustr ''## '')) [G 1] (join [NL] ?ls')
      = Inr (join [NL] (map md026_line ?ls))"
    unfolding re_sub_def by (simp only: ok two eq if_True)
  show ?thesis
    unfolding fix_md026_trailing_punctuation_def s1 and_then_def by (simp only: sum.case s2)
qed

lemma md024_count_snoc:
  "md024_count (seen @ [l]) b =
     md024_count seen b + (if prefix (ustr ''### '') l \<and> heading_base l = b then 1 else 0)"
  by (simp add: md024_count_def)

lemma md024_loop_lines:
  "(\<And>b. hc b = (if md024_count seen b = 0 then None else Some (md024_count seen b))) \<Longrightarrow>
     md024_loop hc acc ls
       = Inr (acc @ map (\<lambda>i. md024_line (seen @ take i ls) (ls ! i)) [0..<length ls])"
proof (induction ls arbitrary: hc acc seen)
  case Nil
  show ?case by simp
next
  case (Cons l ls)
  let ?b = "heading_base l"
  have shift: "map (\<lambda>i. md024_line (seen @ take i (l # ls)) ((l # ls) ! i)) [0..<length (l # ls)]
      = md024_line seen l # map (\<lambda>i. md024_line ((seen @ [l]) @ take i ls) (ls ! i)) [0..<length ls]"
    by (simp add: map_upt_Suc del: upt_Suc)
  show ?case
  proof (cases "prefix (ustr ''### '') l")
    case False
    have inv: "\<And>b. hc b = (if md024_count (seen @ [l]) b = 0 then None
        else Some (md024_count (seen @ [l]) b))"
      using Cons.prems False by (simp add: md024_count_snoc)
    have "md024_loop hc acc (l # ls) = md024_loop hc (acc @ [l]) ls" using False by simp
    also have "\<dots> = Inr ((acc @ [l]) @
        map (\<lambda>i. md024_line ((seen @ [l]) @ take i ls) (ls ! i)) [0..<length ls])"
      by (rule Cons.IH[OF inv])
    finally show ?thesis unfolding shift using False by (simp add: md024_line_def)
  next
    case True
    show ?thesis
    proof (cases "md024_count seen ?b = 0")
      case z: True
      then have nd: "?b \<notin> dom hc" using Cons.prems[of ?b] by (simp add: domIff)
      have inv: "\<And>b. (hc(?b \<mapsto> 1)) b = (if md024_count (seen @ [l]) b = 0 then None
          else Some (md024_count (seen @ [l]) b))"
        using Cons.prems True z by (simp add: md024_count_snoc)
      have "md024_loop hc acc (l # ls) = md024_loop (hc(?b \<mapsto> 1)) (acc @ [l]) ls"
        using True nd by (simp add: Let_def)
      also have "\<dots> = Inr ((acc @ [l]) @
          map (\<lambda>i. md024_line ((seen @ [l]) @ take i ls) (ls ! i)) [0..<length ls])"
        by (rule Cons.IH[OF inv])
      finally show ?thesis unfolding shift using True z by (simp add: md024_line_def)
    next
      case nz: False
      let ?n = "md024_count seen ?b"
      have hb: "hc ?b = Some ?n" using Cons.prems[of ?b] nz by simp
      then have d: "?b \<in> dom hc" by (simp add: domIff)
      let ?new = "ustr ''### '' @ ?b @ ustr '' ('' @ digits (?n + 1) @ ustr '')''"
      have inv: "\<And>b. (hc(?b \<mapsto> ?n + 1)) b = (if md024_count (seen @ [l]) b = 0 then None
          else Some (md024_count (seen @ [l]) b))"
        using Cons.prems True nz by (simp add: md024_count_snoc)
      have "md024_loop hc acc (l # ls) = md024_loop (hc(?b \<mapsto> ?n + 1)) (acc @ [?new]) ls"
        using True d hb by (simp add: Let_def dict_get_def and_then_def del: digits.simps)
      also have "\<dots> = Inr ((acc @ [?new]) @
          map (\<lambda>i. md024_line ((seen @ [l]) @ take i ls) (ls ! i)) [0..<length ls])"
        by (rule Cons.IH[OF inv])
      finally show ?thesis unfolding shift using True nz
        by (simp add: md024_line_def del: digits.simps)
    qed
  qed
qed

section \<open>Facts about the loop of MD013\<close>

lemma and_then_Inr [simp]: "and_then (Inr v) f = f v"
  by (simp add: and_then_def)

lemma and_then_Inl [simp]: "and_then (Inl e) f = Inl e"
  by (simp add: and_then_def)

lemma and_then_assoc: "and_then (and_then r f) g = and_then r (\<lambda>v. and_then (f v) g)"
  by (cases r) simp_all

lemma md013_parts_acc:
  "md013_parts n tok acc cur parts
     = (acc @ fst (md013_parts n tok [] cur parts), snd (md013_parts n tok [] cur parts))"
proof (induction parts arbitrary: acc cur)
  case Nil
  show ?case by simp
next
  case (Cons p ps)
  show ?case
  proof (cases "length cur + length p + length tok \<le> n")
    case True
    then show ?thesis using Cons.IH[of acc "cur @ tok @ p"] by simp
  next
    case False
    then show ?thesis
      using Cons.IH[of "acc @ [cur]" "ustr ''  '' @ tok @ strip p"]
        Cons.IH[of "[cur]" "ustr ''  '' @ tok @ strip p"]
      by simp
  qed
qed

text \<open>
  What the inner loop guarantees: a line it emits is within the bound, or is the first
  segment as it came, or is a continuation line of one segment behind its prefix.
\<close>

lemma md013_parts_bound:
  "md013_parts n tok acc cur parts = (out, cur') \<Longrightarrow> l \<in> set (out @ [cur']) \<Longrightarrow>
     l \<in> set acc \<or> length l \<le> n \<or> l = cur
       \<or> (\<exists>p\<in>set parts. l = ustr ''  '' @ tok @ strip p)"
proof (induction parts arbitrary: acc cur)
  case Nil
  then show ?case by auto
next
  case (Cons p ps)
  show ?case
  proof (cases "length cur + length p + length tok \<le> n")
    case True
    then have "md013_parts n tok acc (cur @ tok @ p) ps = (out, cur')"
      using Cons.prems(1) by simp
    from Cons.IH[OF this Cons.prems(2)] True show ?thesis by auto
  next
    case False
    then have "md013_parts n tok (acc @ [cur]) (ustr ''  '' @ tok @ strip p) ps = (out, cur')"
      using Cons.prems(1) by simp
    from Cons.IH[OF this Cons.prems(2)] show ?thesis by auto
  qed
qed

lemma md013_split_line_acc:
  "\<exists>q. \<forall>acc. md013_split_line n tok acc line = Inr (acc @ q)"
proof -
  let ?parts = "split line tok"
  have ne: "?parts \<noteq> []" by (simp add: split_def split_from_not_Nil)
  then have g: "getitem ?parts 0 = Inr (hd ?parts)"
    by (cases ?parts) (simp_all add: getitem_def)
  let ?r = "md013_parts n tok [] (hd ?parts) (drop 1 ?parts)"
  have "\<forall>acc. md013_split_line n tok acc line = Inr (acc @ (fst ?r @ [snd ?r]))"
  proof
    fix acc
    show "md013_split_line n tok acc line = Inr (acc @ (fst ?r @ [snd ?r]))"
      unfolding md013_split_line_def Let_def g and_then_Inr
      using md013_parts_acc[of n tok acc "hd ?parts" "drop 1 ?parts"]
      by (simp add: case_prod_beta)
  qed
  then show ?thesis by blast
qed

lemma md013_loop_acc: "\<exists>r. \<forall>acc. md013_loop n acc ls = Inr (acc @ r)"
proof (induction ls)
  case Nil
  show ?case by simp
next
  case (Cons l ls)
  then obtain r where r: "\<And>acc. md013_loop n acc ls = Inr (acc @ r)" by blast
  obtain q1 where q1: "\<And>acc. md013_split_line n [WIDE_COMMA] acc l = Inr (acc @ q1)"
    using md013_split_line_acc[of n "[WIDE_COMMA]" l] by blast
  obtain q2 where q2: "\<And>acc. md013_split_line n (ustr ''. '') acc l = Inr (acc @ q2)"
    using md013_split_line_acc[of n "ustr ''. ''" l] by blast
  let ?q = "if length l > n \<and> PIPE \<notin> set l \<and> BACKTICK \<notin> set l
            then (if WIDE_COMMA \<in> set l then q1
                  else if contains (ustr ''. '') l then q2 else [l])
            else [l]"
  have "\<forall>acc. md013_loop n acc (l # ls) = Inr (acc @ (?q @ r))"
    by (auto simp: q1 q2 r)
  then show ?case by blast
qed

lemma md013_loop_append:
  "md013_loop n acc (xs @ ys) = and_then (md013_loop n acc xs) (\<lambda>a. md013_loop n a ys)"
proof (induction xs arbitrary: acc)
  case Nil
  show ?case by simp
next
  case (Cons x xs)
  show ?case by (simp add: Cons.IH and_then_assoc)
qed

lemma md013_loop_keeps:
  "PIPE \<in> set l \<or> BACKTICK \<in> set l \<Longrightarrow>
     md013_loop n acc (l # ls) = md013_loop n (acc @ [l]) ls"
  by auto

lemma split_from_none: "c \<notin> set s \<Longrightarrow> split_from [c] cur s = [cur @ s]"
  by (induction s arbitrary: cur) auto

lemma split_from_hit:
  "c \<notin> set a \<Longrightarrow> split_from [c] cur (a @ c # b) = (cur @ a) # split_from [c] [] b"
  by (induction a arbitrary: cur) auto

lemma strip_replicate: "\<not> isspace x \<Longrightarrow> strip (replicate n x) = replicate n x"
  by (simp add: strip_def dropWhile_replicate)

section \<open>Rules that return, and rules that change nothing\<close>



lemma md001_loop_id: "md001_loop level acc ls = acc @ ls"
  by (induction ls arbitrary: level acc) auto

lemma md001_id: "fix_md001_heading_increment content = Inr content"
  by (simp add: fix_md001_heading_increment_def md001_loop_id join_split)




lemma md051_loop_total: "\<exists>y. md051_loop fs content = Inr y"
  by (induction fs content rule: md051_loop.induct) (auto simp: re_sub_def)


lemmas rule_defs = fix_md026_trailing_punctuation_def fix_md030_list_markers_def
  fix_md031_code_blocks_def fix_md032_heading_list_spacing_def fix_md036_emphasis_heading_def
  fix_md040_code_block_language_def fix_md045_image_alt_text_def
  fix_md012_multiple_blank_lines_def fix_md027_asterisk_blocks_def
  fix_md028_blank_line_after_blockquotes_def fix_md033_no_inline_html_def

lemma md013_total: "\<exists>y. fix_md013_line_length content n = Inr y"
proof -
  obtain r where "\<And>acc. md013_loop n acc (split content [NL]) = Inr (acc @ r)"
    using md013_loop_acc[of n "split content [NL]"] by blast
  then show ?thesis by (simp add: fix_md013_line_length_def)
qed

lemma rules_return:
  "fix_md001_heading_increment content = Inr content
   \<and> fix_md027_asterisk_blocks content = Inr content
   \<and> fix_md028_blank_line_after_blockquotes content = Inr content
   \<and> fix_md033_no_inline_html content = Inr content
   \<and> (\<exists>y. fix_md024_duplicate_headings content = Inr y)
   \<and> (\<exists>y. fix_md026_trailing_punctuation content = Inr y)
   \<and> (\<exists>y. fix_md030_list_markers content = Inr y)
   \<and> (\<exists>y. fix_md031_code_blocks content = Inr y)
   \<and> (\<exists>y. fix_md032_heading_list_spacing content = Inr y)
   \<and> (\<exists>y. fix_md036_emphasis_heading content = Inr y)
   \<and> (\<exists>y. fix_md040_code_block_language content = Inr y)
   \<and> (\<exists>y. fix_md045_image_alt_text content = Inr y)
   \<and> (\<exists>y. fix_md012_multiple_blank_lines content = Inr y)
   \<and> (\<exists>y. fix_md047_file_ends_newline content = Inr y)
   \<and> (\<exists>y. fix_md051_link_fragments content = Inr y)
   \<and> (\<exists>y. fix_md013_line_length content max_len = Inr y)"
  using md013_total[of content max_len]
    md024_loop_lines[of Map.empty "[]" "[]" "split content [NL]"]
    md051_loop_total[of md051_fixes content]
  by (simp add: md001_id rule_defs pattern_defs re_sub_def md047_closed_form
      fix_md051_link_fragments_def fix_md024_duplicate_headings_def md024_count_def)


lemma apply_rules_total:
  "(\<And>r x. r \<in> set rules \<Longrightarrow> \<exists>y. r x = Inr y) \<Longrightarrow> \<exists>y. apply_rules content rules = Inr y"
proof (induction rules arbitrary: content)
  case Nil
  show ?case by simp
next
  case (Cons r rules)
  obtain y where y: "r content = Inr y" using Cons.prems[of r content] by auto
  have "\<exists>z. apply_rules y rules = Inr z" using Cons.IH[of y] Cons.prems by auto
  then show ?case using y by simp
qed

lemma rule_sets_return:
  "(\<exists>y. apply_rules content CONTRIBUTING_RULES = Inr y)
   \<and> (\<exists>y. apply_rules content FAQ_RULES = Inr y)
   \<and> (\<exists>y. apply_rules content PRD_RULES = Inr y)"
proof -
  have "\<And>r x. r \<in> set (CONTRIBUTING_RULES @ FAQ_RULES @ PRD_RULES) \<Longrightarrow> \<exists>y. r x = Inr y"
    using rules_return by (auto simp: CONTRIBUTING_RULES_def FAQ_RULES_def PRD_RULES_def)
  then show ?thesis by (auto intro!: apply_rules_total)
qed

section \<open>The properties of the rules\<close>

text \<open>
  C1. On three identical level-3 headings the duplicate-heading rule numbers the second
  and the third, and a second pass over that output changes nothing: the keys
  \<^verbatim>\<open>Foo\<close>, \<^verbatim>\<open>Foo (2)\<close> and \<^verbatim>\<open>Foo (3)\<close> are distinct.
\<close>

theorem md024_three_headings_converge:
  "fix_md024_duplicate_headings (ustr ''### Foo\<newline>### Foo\<newline>### Foo'')
     = Inr (ustr ''### Foo\<newline>### Foo (2)\<newline>### Foo (3)'')
   \<and> fix_md024_duplicate_headings (ustr ''### Foo\<newline>### Foo (2)\<newline>### Foo (3)'')
     = Inr (ustr ''### Foo\<newline>### Foo (2)\<newline>### Foo (3)'')"
  by (simp add: py_defs fix_md024_duplicate_headings_def)

text \<open>
  C2 as stated fails: the key drops every colon of the line, not only a trailing one
  (and every occurrence of the marker, and surrounding whitespace). The headings
  \<^verbatim>\<open>### a:b\<close> and \<^verbatim>\<open>### ab\<close> differ by more than a trailing colon, yet both have the
  key \<^verbatim>\<open>ab\<close> and the second is numbered as a duplicate.
\<close>

theorem md024_key_drops_inner_colon:
  "heading_base (ustr ''### a:b'') = ustr ''ab''
   \<and> fix_md024_duplicate_headings (ustr ''### a:b\<newline>### ab'')
       = Inr (ustr ''### a:b\<newline>### ab (2)'')"
  by (simp add: py_defs fix_md024_duplicate_headings_def)

text \<open>
  C2, amended. The key of a line is the line with every \<^verbatim>\<open>### \<close> and every colon
  removed, then stripped of surrounding whitespace. Line \<open>i\<close> of the output is line
  \<open>i\<close> of the input unless it starts with \<^verbatim>\<open>### \<close> and an earlier level-3 heading has
  the same key: then it is \<^verbatim>\<open>### \<close>, the key, and \<^verbatim>\<open> (N)\<close>, where \<open>N\<close> counts the
  level-3 headings with that key up to and including this line.
\<close>

theorem md024_numbers_equal_keys:
  "heading_base line = strip (replace (replace line (ustr ''### '') []) [COLON] [])
   \<and> fix_md024_duplicate_headings content =
     Inr (join [NL]
       (map (\<lambda>i. md024_line (take i (split content [NL])) (split content [NL] ! i))
          [0..<length (split content [NL])]))"
  using md024_loop_lines[of Map.empty "[]" "[]" "split content [NL]"]
  by (simp add: fix_md024_duplicate_headings_def and_then_def md024_count_def
      heading_base_def)

text \<open>
  C3. Collapsing blank lines and normalising the final newline are idempotent: each rule
  returns a content on which it returns that same content, for every input.
\<close>

theorem md012_md047_idempotent:
  "(\<exists>y. fix_md012_multiple_blank_lines x = Inr y \<and> fix_md012_multiple_blank_lines y = Inr y)
  \<and> (\<exists>y. fix_md047_file_ends_newline x = Inr y \<and> fix_md047_file_ends_newline y = Inr y)"
proof
  show "\<exists>y. fix_md012_multiple_blank_lines x = Inr y \<and> fix_md012_multiple_blank_lines y = Inr y"
    by (simp add: md012_closed_form collapse_idem)
next
  let ?x = "if suffix [NL] x then x else x @ [NL]"
  have "suffix [NL] ?x" by (simp add: suffix_def)
  then have "suffix [NL] (trail ?x)" by (rule trail_suffix)
  then have "fix_md047_file_ends_newline (trail ?x) = Inr (trail ?x)"
    unfolding md047_closed_form[of "trail ?x"] by (simp add: trail_idem)
  then show "\<exists>y. fix_md047_file_ends_newline x = Inr y \<and> fix_md047_file_ends_newline y = Inr y"
    unfolding md047_closed_form[of x] by simp
qed

text \<open>
  C4. The blank-line-before-bullet rule and the promotion rule do not commute. On a
  line wrapped in \<^verbatim>\<open><strong>\<close> that is followed at once by a bullet marked U+2705,
  MD032 first finds no heading before the bullet, so the promoted heading stays glued
  to the bullet; MD036 first makes the heading, and MD032 then inserts the blank line.
\<close>

theorem md032_md036_do_not_commute:
  "apply_rules (ustr ''<strong>Foo</strong>\<newline>- '' @ [CHECK_MARK] @ ustr '' x'')
       [fix_md032_heading_list_spacing, fix_md036_emphasis_heading]
     = Inr (ustr ''### Foo\<newline>- '' @ [CHECK_MARK] @ ustr '' x'')
   \<and> apply_rules (ustr ''<strong>Foo</strong>\<newline>- '' @ [CHECK_MARK] @ ustr '' x'')
       [fix_md036_emphasis_heading, fix_md032_heading_list_spacing]
     = Inr (ustr ''### Foo\<newline>\<newline>- '' @ [CHECK_MARK] @ ustr '' x'')
   \<and> apply_rules (ustr ''<strong>Foo</strong>\<newline>- '' @ [CHECK_MARK] @ ustr '' x'')
       [fix_md032_heading_list_spacing, fix_md036_emphasis_heading]
     \<noteq> apply_rules (ustr ''<strong>Foo</strong>\<newline>- '' @ [CHECK_MARK] @ ustr '' x'')
       [fix_md036_emphasis_heading, fix_md032_heading_list_spacing]"
proof -
  let ?x = "ustr ''<strong>Foo</strong>\<newline>- '' @ [CHECK_MARK] @ ustr '' x''"
  let ?glued = "ustr ''### Foo\<newline>- '' @ [CHECK_MARK] @ ustr '' x''"
  let ?spaced = "ustr ''### Foo\<newline>\<newline>- '' @ [CHECK_MARK] @ ustr '' x''"
  have spacing_first: "fix_md032_heading_list_spacing ?x = Inr ?x"
    by (simp add: py_defs pattern_defs re_scan.simps fix_md032_heading_list_spacing_def)
  have promote: "fix_md036_emphasis_heading ?x = Inr ?glued"
    by (simp add: py_defs pattern_defs re_scan.simps fix_md036_emphasis_heading_def)
  have spacing_second: "fix_md032_heading_list_spacing ?glued = Inr ?spaced"
    by (simp add: py_defs pattern_defs re_scan.simps fix_md032_heading_list_spacing_def)
  have differ: "?glued \<noteq> ?spaced" by (simp add: ustr_def)
  show ?thesis
    unfolding apply_rules.simps spacing_first promote and_then_Inr spacing_second
    using differ by simp
qed

text \<open>
  C5 fails on the code. With \<open>max_len = 120\<close>, a line of nine letters, a wide comma
  and a segment of 119 letters is split, and the segment, which by itself is within the
  bound, comes out behind the three characters of the continuation prefix: a line of
  122 characters.
\<close>

theorem md013_continuation_exceeds_bound:
  "fix_md013_line_length (replicate 9 97 @ [WIDE_COMMA] @ replicate 119 98) 120
     = Inr (replicate 9 97 @ [NL] @ ustr ''  '' @ [WIDE_COMMA] @ replicate 119 98)
   \<and> length (replicate 119 (98::nat)) = 119
   \<and> length (ustr ''  '' @ [WIDE_COMMA] @ replicate 119 98) = 122"
proof -
  let ?a = "replicate 9 (97::nat)" and ?b = "replicate 119 (98::nat)"
  have s1: "split (?a @ WIDE_COMMA # ?b) [NL] = [?a @ WIDE_COMMA # ?b]"
    by (simp add: split_def split_from_none)
  have s2: "split (?a @ WIDE_COMMA # ?b) [WIDE_COMMA] = [?a, ?b]"
    by (simp add: split_def split_from_hit split_from_none)
  have st: "strip ?b = ?b" by (rule strip_replicate) (simp add: isspace_def)
  have "md013_split_line 120 [WIDE_COMMA] [] (?a @ WIDE_COMMA # ?b)
      = Inr [?a, ustr ''  '' @ [WIDE_COMMA] @ ?b]"
    by (simp add: md013_split_line_def s2 getitem_def st)
  then have "md013_loop 120 [] [?a @ WIDE_COMMA # ?b] = Inr [?a, ustr ''  '' @ [WIDE_COMMA] @ ?b]"
    by simp
  then show ?thesis
    by (simp add: fix_md013_line_length_def s1 ustr_def)
qed

text \<open>
  C6 fails on the code. The closing fence below already has a blank line after it (and
  the opening fence one before it: the first substitution, which has the guard
  \<^verbatim>\<open>[^\n]\<close>, changes nothing), yet the second substitution adds another blank line.
\<close>

theorem md031_adds_second_blank_line:
  "fix_md031_code_blocks
       (ustr ''a\<newline>\<newline>```sh\<newline>b\<newline>\<newline>```\<newline>\<newline>c\<newline>'')
     = Inr (ustr ''a\<newline>\<newline>```sh\<newline>b\<newline>\<newline>```\<newline>\<newline>\<newline>c\<newline>'')
   \<and> re_sub False md031_before [G 1, T [NL, NL], G 2]
       (ustr ''a\<newline>\<newline>```sh\<newline>b\<newline>\<newline>```\<newline>\<newline>c\<newline>'')
     = Inr (ustr ''a\<newline>\<newline>```sh\<newline>b\<newline>\<newline>```\<newline>\<newline>c\<newline>'')"
  by (simp add: py_defs pattern_defs re_scan.simps fix_md031_code_blocks_def)



text \<open>
  C8 as stated fails: a level-3 heading whose text ends with a colon and holds another
  colon before it is returned unchanged, because the pattern \<^verbatim>\<open>[^:\n]+\<close> admits no colon
  in the text.
\<close>

theorem md026_keeps_heading_with_inner_colon:
  "fix_md026_trailing_punctuation (ustr ''### a:b:\<newline>'') = Inr (ustr ''### a:b:\<newline>'')"
  by (simp add: py_defs pattern_defs re_scan.simps fix_md026_trailing_punctuation_def)

text \<open>
  C8, amended. MD026 works line by line: a line that is \<^verbatim>\<open>### \<close> or \<^verbatim>\<open>## \<close>, then a
  non-empty text without any colon, then one final colon, loses that colon (marker and
  space kept); every other line, also a heading whose text holds a further colon, is
  unchanged. In particular \<^verbatim>\<open>### Foo:\<close> followed by a newline becomes \<^verbatim>\<open>### Foo\<close> and the
  newline.
\<close>

theorem md026_strips_single_trailing_colon:
  "fix_md026_trailing_punctuation content
     = Inr (join [NL] (map md026_line (split content [NL])))
   \<and> fix_md026_trailing_punctuation (ustr ''### Foo:\<newline>'') = Inr (ustr ''### Foo\<newline>'')"
proof
  show "fix_md026_trailing_punctuation content
     = Inr (join [NL] (map md026_line (split content [NL])))"
    by (rule md026_by_lines)
  show "fix_md026_trailing_punctuation (ustr ''### Foo:\<newline>'') = Inr (ustr ''### Foo\<newline>'')"
    by (simp add: py_defs pattern_defs re_scan.simps fix_md026_trailing_punctuation_def)
qed

text \<open>
  C9. A line of the input that holds a pipe or a backtick is in the output as it is,
  whatever its length (so also when it is longer than \<open>max_len\<close>): the output is the
  lines made from the lines before it, then the line itself, then the lines made from
  the lines after it.
\<close>

theorem md013_keeps_table_and_code_lines:
  assumes i: "i < length (split content [NL])"
    and mark: "PIPE \<in> set (split content [NL] ! i) \<or> BACKTICK \<in> set (split content [NL] ! i)"
  shows "\<exists>before after.
      md013_loop max_len [] (take i (split content [NL])) = Inr before
    \<and> md013_loop max_len [] (drop (Suc i) (split content [NL])) = Inr after
    \<and> fix_md013_line_length content max_len
        = Inr (join [NL] (before @ split content [NL] ! i # after))"
proof -
  let ?ls = "split content [NL]"
  obtain a where a: "\<And>acc. md013_loop max_len acc (take i ?ls) = Inr (acc @ a)"
    using md013_loop_acc[of max_len "take i ?ls"] by blast
  obtain b where b: "\<And>acc. md013_loop max_len acc (drop (Suc i) ?ls) = Inr (acc @ b)"
    using md013_loop_acc[of max_len "drop (Suc i) ?ls"] by blast
  have ls: "?ls = take i ?ls @ ?ls ! i # drop (Suc i) ?ls"
    using i by (rule id_take_nth_drop)
  have "md013_loop max_len [] ?ls
      = and_then (md013_loop max_len [] (take i ?ls))
          (\<lambda>a. md013_loop max_len a (?ls ! i # drop (Suc i) ?ls))"
    using md013_loop_append[of max_len "[]" "take i ?ls" "?ls ! i # drop (Suc i) ?ls"] ls
    by simp
  also have "\<dots> = md013_loop max_len (a @ [?ls ! i]) (drop (Suc i) ?ls)"
    using a[of "[]"] md013_loop_keeps[OF mark] by simp
  also have "\<dots> = Inr (a @ ?ls ! i # b)" using b[of "a @ [?ls ! i]"] by simp
  finally have "fix_md013_line_length content max_len = Inr (join [NL] (a @ ?ls ! i # b))"
    by (simp add: fix_md013_line_length_def)
  then show ?thesis using a[of "[]"] b[of "[]"] by simp
qed

text \<open>
  The same at a document of one line that is longer than the bound 5, holds a pipe and
  holds the split token \<^verbatim>\<open>. \<close>.
\<close>

theorem md013_keeps_table_and_code_lines_witness:
  "0 < length (split (ustr ''a|bcdefg. h'') [NL])
   \<and> 5 < length (split (ustr ''a|bcdefg. h'') [NL] ! 0)
   \<and> (PIPE \<in> set (split (ustr ''a|bcdefg. h'') [NL] ! 0)
        \<or> BACKTICK \<in> set (split (ustr ''a|bcdefg. h'') [NL] ! 0))
   \<and> (\<exists>before after.
        md013_loop 5 [] (take 0 (split (ustr ''a|bcdefg. h'') [NL])) = Inr before
      \<and> md013_loop 5 [] (drop (Suc 0) (split (ustr ''a|bcdefg. h'') [NL])) = Inr after
      \<and> fix_md013_line_length (ustr ''a|bcdefg. h'') 5
          = Inr (join [NL] (before @ split (ustr ''a|bcdefg. h'') [NL] ! 0 # after)))"
proof -
  have h1: "0 < length (split (ustr ''a|bcdefg. h'') [NL])"
    by (simp add: split_def ustr_def)
  have h2: "PIPE \<in> set (split (ustr ''a|bcdefg. h'') [NL] ! 0)
        \<or> BACKTICK \<in> set (split (ustr ''a|bcdefg. h'') [NL] ! 0)"
    by (simp add: split_def ustr_def)
  have h3: "5 < length (split (ustr ''a|bcdefg. h'') [NL] ! 0)"
    by (simp add: split_def ustr_def)
  show ?thesis using h1 h2 h3 md013_keeps_table_and_code_lines[OF h1 h2, of 5] by blast
qed



end
